theory Spec2Isabelle
  imports Main "HOL-Library.AList"
begin

section \<open>The job runner of \<open>run-sequential-promises.js\<close>\<close>

subsection \<open>JavaScript values\<close>

text \<open>
  The values that flow through the runner: what a job's promise fulfils or rejects
  with, the slots of \<open>resultList\<close> and the rejection payload. An object is the list of its
  own properties in insertion order; property names are strings. Array indices such as
  \<open>promiseIndex\<close> are integers, so numbers are modelled as \<open>int\<close>.
\<close>

datatype jsval =
    JUndefined
  | JNull
  | JBool bool
  | JNum int
  | JStr string
  | JObj "(string \<times> jsval) list"
  | JArr "jsval list"

text \<open>
  \<open>v.k\<close> for a value that is neither \<open>undefined\<close> nor \<open>null\<close>: an own property of an
  object, and \<open>undefined\<close> where there is none. The only name the program reads is
  \<open>error\<close>, which no primitive and no array carries by itself.
\<close>

fun get_prop :: "jsval \<Rightarrow> string \<Rightarrow> jsval" where
  "get_prop (JObj ps) k = (case map_of ps k of Some v \<Rightarrow> v | None \<Rightarrow> JUndefined)"
| "get_prop _ k = JUndefined"

text \<open>
  The own enumerable properties that \<open>{ ...v }\<close> copies. The program spreads only a
  value whose \<open>error\<close> property is defined, which in this model is an object.
\<close>

fun own_props :: "jsval \<Rightarrow> (string \<times> jsval) list" where
  "own_props (JObj ps) = ps"
| "own_props _ = []"

subsection \<open>Jobs, lanes and the state of one call\<close>

text \<open>
  A job is a function \<open>(resultList) => Promise\<close>. The promise it returns is fulfilled,
  is rejected, or stays pending for ever; which of the three is a function of the
  snapshot the job was called with.
\<close>

datatype settlement = Fulfils jsval | RejectsWith jsval | NeverSettles

type_synonym job = "jsval list \<Rightarrow> settlement"

text \<open>
  A lane is one promise made by \<open>getPromiseThread\<close>: it waits for the job it has
  invoked, or it has been resolved, or it has been rejected with a payload.
\<close>

datatype lane = Awaiting nat settlement | LaneResolved | LaneRejected jsval

text \<open>
  The promise returned to the caller, once it has settled. Line 74 fulfils it with the
  array \<open>resultList\<close> itself, not with a copy; a rejection carries the payload built in
  line 57, which holds a copy of the array.
\<close>

datatype fate = FulfilledWithResultList | RejectedWith jsval

text \<open>What a caller reads from the settled promise: a list of slots, or the payload.\<close>

datatype outcome = Resolves "jsval list" | Rejects jsval

text \<open>
  What a run does, in order: \<open>++jobIndex\<close> yielding a value, a job called with a
  snapshot, an assignment to \<open>resultList[i]\<close>. The trace is not program state; it
  records the history the properties speak about.
\<close>

datatype event = Claim int | Invoke nat "jsval list" | Write nat jsval

text \<open>
  The variables of one call of \<open>runSequentialPromises\<close>: \<open>jobIndex\<close>, \<open>hasAborted\<close>
  and \<open>resultList\<close> are the closure's variables; \<open>lanes\<close> holds every promise made by
  \<open>getPromiseThread\<close>; \<open>threads\<close> is the array handed to \<open>Promise.all\<close>, each entry a
  reference to a lane; \<open>promise\<close> is the state of the promise given to the caller
  (\<open>None\<close> while pending).
\<close>

record state =
  jobIndex :: int
  hasAborted :: bool
  resultList :: "jsval list"
  lanes :: "lane list"
  threads :: "nat list"
  promise :: "fate option"
  trace :: "event list"

subsection \<open>The lane loop\<close>

text \<open>
  \<open>runNextPromise\<close> of lane \<open>k\<close> (lines 35 to 43): claim the next index; resolve the
  lane when the run has aborted or the index is out of range; otherwise call the job
  with a copy of \<open>resultList\<close> and wait for its promise.
\<close>

definition runNextPromise :: "job list \<Rightarrow> nat \<Rightarrow> state \<Rightarrow> state" where
  "runNextPromise promiseList k st =
     (let currentJobIndex = jobIndex st + 1;
          totalJobs = int (length promiseList);
          st1 = st\<lparr>jobIndex := currentJobIndex,
                   trace := trace st @ [Claim currentJobIndex]\<rparr>
      in if hasAborted st1 = True \<or> currentJobIndex \<ge> totalJobs
         then st1\<lparr>lanes := (lanes st1)[k := LaneResolved]\<rparr>
         else
           (let i = nat currentJobIndex;
                snapshot = resultList st1
            in st1\<lparr>lanes := (lanes st1)[k := Awaiting i ((promiseList ! i) snapshot)],
                   trace := trace st1 @ [Invoke i snapshot]\<rparr>))"

text \<open>
  Line 44, \<open>.catch(err => ({ promiseIndex: currentJobIndex, error: err }))\<close>: the value
  the \<open>then\<close> callback receives, if the job's promise ever settles.
\<close>

definition caught :: "nat \<Rightarrow> settlement \<Rightarrow> jsval option" where
  "caught currentJobIndex s =
     (case s of
        Fulfils v \<Rightarrow> Some v
      | RejectsWith err \<Rightarrow>
          Some (JObj [(''promiseIndex'', JNum (int currentJobIndex)), (''error'', err)])
      | NeverSettles \<Rightarrow> None)"

text \<open>Line 52, the test that decides whether \<open>result\<close> is treated as an error.\<close>

definition has_error :: "jsval \<Rightarrow> bool" where
  "has_error result =
     (result \<noteq> JUndefined \<and> result \<noteq> JNull \<and> get_prop result ''error'' \<noteq> JUndefined)"

text \<open>
  The \<open>then\<close> callback of lane \<open>k\<close> for job \<open>currentJobIndex\<close> (lines 45 to 67).
  \<open>{ ...result, resultList: [ ...resultList ] }\<close> keeps the properties of \<open>result\<close> in
  order and sets \<open>resultList\<close>, in place if \<open>result\<close> already had that property.
  The index is below \<open>totalJobs\<close> (line 38), so the assignment never extends the array.
\<close>

definition onSettled :: "job list \<Rightarrow> bool \<Rightarrow> nat \<Rightarrow> nat \<Rightarrow> jsval \<Rightarrow> state \<Rightarrow> state" where
  "onSettled promiseList abortOnFail k currentJobIndex result st =
     (if hasAborted st = True then st\<lparr>lanes := (lanes st)[k := LaneResolved]\<rparr>
      else if has_error result then
        (let st1 = st\<lparr>resultList := (resultList st)[currentJobIndex := result],
                      trace := trace st @ [Write currentJobIndex result]\<rparr>
         in if abortOnFail = True then
              st1\<lparr>hasAborted := True,
                  lanes := (lanes st1)[k := LaneRejected
                    (JObj (AList.update ''resultList'' (JArr (resultList st1))
                             (own_props result)))]\<rparr>
            else runNextPromise promiseList k st1)
      else
        (let slot = JObj [(''promiseIndex'', JNum (int currentJobIndex)), (''data'', result)]
         in runNextPromise promiseList k
              (st\<lparr>resultList := (resultList st)[currentJobIndex := slot],
                  trace := trace st @ [Write currentJobIndex slot]\<rparr>)))"

text \<open>
  \<open>getPromiseThread()\<close> (lines 34 and 70): make a new lane and run \<open>runNextPromise\<close>
  in it at once, inside the promise's executor. The value is the new state and the
  reference to the new promise.
\<close>

definition getPromiseThread :: "job list \<Rightarrow> state \<Rightarrow> state \<times> nat" where
  "getPromiseThread promiseList st =
     (let k = length (lanes st)
      in (runNextPromise promiseList k (st\<lparr>lanes := lanes st @ [LaneResolved]\<rparr>), k))"

subsection \<open>The returned promise\<close>

text \<open>
  \<open>Promise.all(threads)\<close> rejects with the reason of the entry that is rejected
  first, is fulfilled when every entry is, and is fulfilled at once for the empty
  array. It is looked at after every turn of the event loop, and a turn settles at most
  one lane, so the first rejected entry in array order is the one rejected first.
\<close>

fun first_rejection :: "lane list \<Rightarrow> nat list \<Rightarrow> jsval option" where
  "first_rejection ls [] = None"
| "first_rejection ls (p # ps) =
     (case ls ! p of LaneRejected r \<Rightarrow> Some r | _ \<Rightarrow> first_rejection ls ps)"

text \<open>Line 74: \<open>Promise.all(threads).then(() => resultList)\<close>, as far as it has settled.\<close>

definition promise_all_then :: "state \<Rightarrow> fate option" where
  "promise_all_then st =
     (case first_rejection (lanes st) (threads st) of
        Some r \<Rightarrow> Some (RejectedWith r)
      | None \<Rightarrow>
          if list_all (\<lambda>p. lanes st ! p = LaneResolved) (threads st)
          then Some FulfilledWithResultList
          else None)"

text \<open>A promise settles once: a settled \<open>promise\<close> is never changed.\<close>

definition settle :: "state \<Rightarrow> state" where
  "settle st =
     (case promise st of
        Some f \<Rightarrow> st
      | None \<Rightarrow> st\<lparr>promise := promise_all_then st\<rparr>)"

subsection \<open>The call and the event loop\<close>

text \<open>
  \<open>runSequentialPromises\<close> (lines 25 to 75), up to its \<open>return\<close>. In line 73 the
  argument of \<open>fill\<close> is evaluated once, so \<open>getPromiseThread\<close> is called once and every
  entry of \<open>threads\<close> is the promise of that call. \<open>threadsNumber\<close> ranges over the
  lengths an array can have.
\<close>

definition runSequentialPromises :: "job list \<Rightarrow> nat \<Rightarrow> bool \<Rightarrow> state" where
  "runSequentialPromises promiseList threadsNumber abortOnFail =
     (let totalJobs = length promiseList;
          st0 = \<lparr>jobIndex = - 1, hasAborted = False,
                 resultList = replicate totalJobs JNull,
                 lanes = [], threads = [], promise = None, trace = []\<rparr>;
          (st1, p) = getPromiseThread promiseList st0
      in settle (st1\<lparr>threads := replicate threadsNumber p\<rparr>))"

text \<open>
  One turn of the event loop for lane \<open>k\<close>: if the lane waits for a job whose promise
  has settled, its \<open>then\<close> callback runs to completion and the promises that depend on
  the lane are settled; otherwise nothing happens.
\<close>

definition tick :: "job list \<Rightarrow> bool \<Rightarrow> nat \<Rightarrow> state \<Rightarrow> state" where
  "tick promiseList abortOnFail k st =
     (if k < length (lanes st) then
        (case lanes st ! k of
           Awaiting i s \<Rightarrow>
             (case caught i s of
                Some result \<Rightarrow> settle (onSettled promiseList abortOnFail k i result st)
              | None \<Rightarrow> st)
         | LaneResolved \<Rightarrow> st
         | LaneRejected r \<Rightarrow> st)
      else st)"

text \<open>
  A schedule names, turn by turn, the lane the event loop serves. \<open>run\<close> is the state
  of a call after the event loop has followed a schedule.
\<close>

fun ticks :: "job list \<Rightarrow> bool \<Rightarrow> nat list \<Rightarrow> state \<Rightarrow> state" where
  "ticks promiseList abortOnFail [] st = st"
| "ticks promiseList abortOnFail (k # ks) st =
     ticks promiseList abortOnFail ks (tick promiseList abortOnFail k st)"

definition run :: "job list \<Rightarrow> nat \<Rightarrow> bool \<Rightarrow> nat list \<Rightarrow> state" where
  "run promiseList threadsNumber abortOnFail sched =
     ticks promiseList abortOnFail sched
       (runSequentialPromises promiseList threadsNumber abortOnFail)"

text \<open>
  What a caller that holds the returned promise reads in a state: nothing while the
  promise is pending; the payload of a rejection; and, the promise being fulfilled with
  the array \<open>resultList\<close> itself, the contents the array has when it is read. With
  \<open>threads\<close> not empty the lane has finished before the promise is fulfilled and the
  array changes no more; with \<open>threadsNumber = 0\<close> the lane goes on writing into the
  array the caller holds.
\<close>

definition returned :: "state \<Rightarrow> outcome option" where
  "returned st =
     (case promise st of
        None \<Rightarrow> None
      | Some FulfilledWithResultList \<Rightarrow> Some (Resolves (resultList st))
      | Some (RejectedWith r) \<Rightarrow> Some (Rejects r))"

subsection \<open>Reading a state\<close>

text \<open>The jobs in flight: invoked, with the callback of their promise not yet run.\<close>

fun in_flight :: "lane list \<Rightarrow> nat list" where
  "in_flight [] = []"
| "in_flight (Awaiting i s # ls) = i # in_flight ls"
| "in_flight (l # ls) = in_flight ls"

fun claimed :: "event list \<Rightarrow> int list" where
  "claimed [] = []"
| "claimed (Claim c # es) = c # claimed es"
| "claimed (e # es) = claimed es"

fun invoked :: "event list \<Rightarrow> nat list" where
  "invoked [] = []"
| "invoked (Invoke i snapshot # es) = i # invoked es"
| "invoked (e # es) = invoked es"

fun written :: "event list \<Rightarrow> nat list" where
  "written [] = []"
| "written (Write i v # es) = i # written es"
| "written (e # es) = written es"

text \<open>
  For every call of a job, in order: the index called, and the indices whose outcome had
  been stored in \<open>resultList\<close> before the call.
\<close>

fun invocations :: "nat list \<Rightarrow> event list \<Rightarrow> (nat \<times> nat list) list" where
  "invocations recorded [] = []"
| "invocations recorded (Invoke i snapshot # es) = (i, recorded) # invocations recorded es"
| "invocations recorded (Write i v # es) = invocations (recorded @ [i]) es"
| "invocations recorded (Claim c # es) = invocations recorded es"

text \<open>
  The value the \<open>then\<close> callback stores in \<open>resultList[currentJobIndex]\<close>: \<open>result\<close>
  itself in the branch of line 53, the object literal of line 63 otherwise.
\<close>

definition slot_of :: "nat \<Rightarrow> jsval \<Rightarrow> jsval" where
  "slot_of currentJobIndex result =
     (if has_error result then result
      else JObj [(''promiseIndex'', JNum (int currentJobIndex)), (''data'', result)])"

text \<open>
  The two documented forms of a slot: \<open>{ promiseIndex, data }\<close> (line 63) and
  \<open>{ promiseIndex, error }\<close> (line 44).
\<close>

definition success_slot :: "nat \<Rightarrow> jsval \<Rightarrow> jsval" where
  "success_slot i d = JObj [(''promiseIndex'', JNum (int i)), (''data'', d)]"

definition failure_slot :: "nat \<Rightarrow> jsval \<Rightarrow> jsval" where
  "failure_slot i err = JObj [(''promiseIndex'', JNum (int i)), (''error'', err)]"

text \<open>
  Jobs to run the program on: one whose promise is fulfilled with \<open>v\<close>, one whose
  promise is rejected with \<open>err\<close>, one whose promise stays pending. When a promise
  settles is the schedule's matter.
\<close>

definition fulfilling :: "jsval \<Rightarrow> job" where
  "fulfilling v = (\<lambda>snapshot. Fulfils v)"

definition rejecting :: "jsval \<Rightarrow> job" where
  "rejecting err = (\<lambda>snapshot. RejectsWith err)"

definition never_settling :: job where
  "never_settling = (\<lambda>snapshot. NeverSettles)"

subsection \<open>Invariants of a call\<close>

text \<open>
  What holds of the one lane in every state a call can reach: while it waits for job
  \<open>i\<close>, the cursor stands at \<open>i\<close>, the slots below \<open>i\<close> are filled and the others are
  \<open>null\<close>; once resolved, every slot is filled; once rejected, the run has aborted at
  the cursor.
\<close>

fun lane_ok :: "job list \<Rightarrow> bool \<Rightarrow> state \<Rightarrow> lane \<Rightarrow> bool" where
  "lane_ok pl a st (Awaiting i s) =
     (jobIndex st = int i \<and> i < length pl \<and> \<not> hasAborted st \<and>
      s = (pl ! i) (resultList st) \<and>
      (\<forall>j<i. resultList st ! j \<noteq> JNull) \<and>
      (\<forall>j. i \<le> j \<and> j < length pl \<longrightarrow> resultList st ! j = JNull))"
| "lane_ok pl a st LaneResolved =
     (jobIndex st = int (length pl) \<and> \<not> hasAborted st \<and>
      (\<forall>j<length pl. resultList st ! j \<noteq> JNull))"
| "lane_ok pl a st (LaneRejected r) =
     (a \<and> hasAborted st \<and> 0 \<le> jobIndex st \<and> nat (jobIndex st) < length pl \<and>
      (\<forall>j\<le>nat (jobIndex st). resultList st ! j \<noteq> JNull) \<and>
      (\<forall>j. nat (jobIndex st) < j \<and> j < length pl \<longrightarrow> resultList st ! j = JNull))"

definition lane_inv :: "job list \<Rightarrow> bool \<Rightarrow> state \<Rightarrow> bool" where
  "lane_inv pl a st \<longleftrightarrow>
     length (resultList st) = length pl \<and> (\<exists>l. lanes st = [l] \<and> lane_ok pl a st l)"

text \<open>The trace has claimed, invoked and written an initial segment of the indices.\<close>

fun trace_ok :: "job list \<Rightarrow> state \<Rightarrow> lane \<Rightarrow> bool" where
  "trace_ok pl st (Awaiting i s) =
     (claimed (trace st) = map int [0..<Suc i] \<and> invoked (trace st) = [0..<Suc i] \<and>
      written (trace st) = [0..<i] \<and> Invoke i (resultList st) \<in> set (trace st))"
| "trace_ok pl st LaneResolved =
     (claimed (trace st) = map int [0..<Suc (length pl)] \<and>
      invoked (trace st) = [0..<length pl] \<and> written (trace st) = [0..<length pl])"
| "trace_ok pl st (LaneRejected r) =
     (claimed (trace st) = map int [0..<Suc (nat (jobIndex st))] \<and>
      invoked (trace st) = [0..<Suc (nat (jobIndex st))] \<and>
      written (trace st) = [0..<Suc (nat (jobIndex st))])"

definition trace_inv :: "job list \<Rightarrow> state \<Rightarrow> bool" where
  "trace_inv pl st \<longleftrightarrow> (\<exists>l. lanes st = [l] \<and> trace_ok pl st l)"

text \<open>
  Every recorded call saw the slots below its index as they are now and \<open>null\<close> from
  its index on; every recorded write is still in place and stores the outcome of the
  job of that index.
\<close>

definition events_inv :: "job list \<Rightarrow> state \<Rightarrow> bool" where
  "events_inv pl st \<longleftrightarrow>
     (\<forall>i snapshot. Invoke i snapshot \<in> set (trace st) \<longrightarrow>
        length snapshot = length pl \<and>
        (\<forall>j<i. snapshot ! j = resultList st ! j \<and> snapshot ! j \<noteq> JNull) \<and>
        (\<forall>j. i \<le> j \<and> j < length pl \<longrightarrow> snapshot ! j = JNull)) \<and>
     (\<forall>i v. Write i v \<in> set (trace st) \<longrightarrow>
        resultList st ! i = v \<and>
        (\<exists>snapshot r. Invoke i snapshot \<in> set (trace st) \<and>
           caught i ((pl ! i) snapshot) = Some r \<and> v = slot_of i r))"

definition order_inv :: "state \<Rightarrow> bool" where
  "order_inv st \<longleftrightarrow>
     invocations [] (trace st) =
       map (\<lambda>i. (i, [0..<i])) [0..<length (invoked (trace st))]"

text \<open>
  Under \<open>abortOnFail\<close>, a slot that carries an error has been written by the turn that
  aborted the run, at the index where the cursor stopped.
\<close>

definition abort_inv :: "bool \<Rightarrow> state \<Rightarrow> bool" where
  "abort_inv a st \<longleftrightarrow>
     (\<forall>i v. a \<and> Write i v \<in> set (trace st) \<and> has_error v \<longrightarrow>
        hasAborted st \<and> jobIndex st = int i)"

definition run_inv :: "job list \<Rightarrow> bool \<Rightarrow> state \<Rightarrow> bool" where
  "run_inv pl a st \<longleftrightarrow>
     lane_inv pl a st \<and> trace_inv pl st \<and> events_inv pl st \<and> order_inv st \<and>
     abort_inv a st"

text \<open>The returned promise follows the lane when \<open>threads\<close> is not empty.\<close>

fun lane_fate :: "lane \<Rightarrow> fate option" where
  "lane_fate (Awaiting i s) = None"
| "lane_fate LaneResolved = Some FulfilledWithResultList"
| "lane_fate (LaneRejected r) = Some (RejectedWith r)"

fun lane_result :: "jsval list \<Rightarrow> lane \<Rightarrow> outcome option" where
  "lane_result rl (Awaiting i s) = None"
| "lane_result rl LaneResolved = Some (Resolves rl)"
| "lane_result rl (LaneRejected r) = Some (Rejects r)"

definition ret_inv :: "state \<Rightarrow> bool" where
  "ret_inv st \<longleftrightarrow> (\<exists>l. lanes st = [l] \<and> promise st = lane_fate l)"

text \<open>Two states that differ at most in \<open>threads\<close> and \<open>promise\<close>.\<close>

definition same_core :: "state \<Rightarrow> state \<Rightarrow> bool" where
  "same_core st st' \<longleftrightarrow>
     jobIndex st = jobIndex st' \<and> hasAborted st = hasAborted st' \<and>
     resultList st = resultList st' \<and> lanes st = lanes st' \<and> trace st = trace st'"

section \<open>Properties of the lane loop\<close>

subsection \<open>The turns of the lane\<close>

lemma settle_fields [simp]:
  "jobIndex (settle st) = jobIndex st"
  "hasAborted (settle st) = hasAborted st"
  "resultList (settle st) = resultList st"
  "lanes (settle st) = lanes st"
  "threads (settle st) = threads st"
  "trace (settle st) = trace st"
  by (simp_all add: settle_def split: option.splits)

lemma lane_ok_settle [simp]: "lane_ok pl a (settle st) l = lane_ok pl a st l"
  by (cases l) simp_all

lemma lane_inv_settle [simp]: "lane_inv pl a (settle st) = lane_inv pl a st"
  by (simp add: lane_inv_def)

lemma slot_of_not_null [simp]: "caught i s = Some r \<Longrightarrow> slot_of i r \<noteq> JNull"
  by (auto simp: slot_of_def has_error_def)

lemma has_error_not_null: "has_error r \<Longrightarrow> r \<noteq> JNull"
  by (simp add: has_error_def)

lemma onSettled_abort:
  "\<not> hasAborted st \<Longrightarrow> has_error r \<Longrightarrow> a \<Longrightarrow>
   onSettled pl a k i r st =
     st\<lparr>resultList := (resultList st)[i := r],
        trace := trace st @ [Write i r],
        hasAborted := True,
        lanes := (lanes st)[k := LaneRejected
          (JObj (AList.update ''resultList'' (JArr ((resultList st)[i := r])) (own_props r)))]\<rparr>"
  by (simp add: onSettled_def Let_def)

lemma onSettled_continue:
  "\<not> hasAborted st \<Longrightarrow> \<not> (has_error r \<and> a) \<Longrightarrow>
   onSettled pl a k i r st =
     runNextPromise pl k
       (st\<lparr>resultList := (resultList st)[i := slot_of i r],
           trace := trace st @ [Write i (slot_of i r)]\<rparr>)"
  by (auto simp: onSettled_def slot_of_def Let_def)

lemma runNextPromise_last:
  "\<not> hasAborted st \<Longrightarrow> int (length pl) \<le> jobIndex st + 1 \<Longrightarrow>
   runNextPromise pl k st =
     st\<lparr>jobIndex := jobIndex st + 1,
        trace := trace st @ [Claim (jobIndex st + 1)],
        lanes := (lanes st)[k := LaneResolved]\<rparr>"
  by (simp add: runNextPromise_def Let_def)

lemma runNextPromise_more:
  "\<not> hasAborted st \<Longrightarrow> jobIndex st + 1 < int (length pl) \<Longrightarrow>
   runNextPromise pl k st =
     st\<lparr>jobIndex := jobIndex st + 1,
        trace := trace st @ [Claim (jobIndex st + 1),
                             Invoke (nat (jobIndex st + 1)) (resultList st)],
        lanes := (lanes st)[k := Awaiting (nat (jobIndex st + 1))
                                  ((pl ! nat (jobIndex st + 1)) (resultList st))]\<rparr>"
  by (simp add: runNextPromise_def Let_def)

text \<open>
  With one lane, a turn of the event loop does nothing, or aborts the run, or stores an
  outcome and then either exhausts the cursor or calls the next job.
\<close>

lemma tick_cases:
  assumes "lane_inv pl a st"
  obtains
    (idle) "tick pl a k st = st"
      "\<And>i s. k = 0 \<Longrightarrow> lanes st = [Awaiting i s] \<Longrightarrow> caught i s = None"
  | (aborts) i s r where "k = 0" "lanes st = [Awaiting i s]" "caught i s = Some r"
      "has_error r" "a"
      "tick pl a k st = settle (st\<lparr>resultList := (resultList st)[i := r],
        trace := trace st @ [Write i r],
        hasAborted := True,
        lanes := [LaneRejected
          (JObj (AList.update ''resultList'' (JArr ((resultList st)[i := r])) (own_props r)))]\<rparr>)"
  | (last) i s r where "k = 0" "lanes st = [Awaiting i s]" "caught i s = Some r"
      "\<not> (has_error r \<and> a)" "length pl = Suc i"
      "tick pl a k st = settle (st\<lparr>resultList := (resultList st)[i := slot_of i r],
           jobIndex := int i + 1,
           trace := trace st @ [Write i (slot_of i r), Claim (int i + 1)],
           lanes := [LaneResolved]\<rparr>)"
  | (more) i s r where "k = 0" "lanes st = [Awaiting i s]" "caught i s = Some r"
      "\<not> (has_error r \<and> a)" "Suc i < length pl"
      "tick pl a k st = settle (st\<lparr>resultList := (resultList st)[i := slot_of i r],
           jobIndex := int i + 1,
           trace := trace st @ [Write i (slot_of i r), Claim (int i + 1),
                                Invoke (Suc i) ((resultList st)[i := slot_of i r])],
           lanes := [Awaiting (Suc i) ((pl ! Suc i) ((resultList st)[i := slot_of i r]))]\<rparr>)"
proof -
  from assms obtain l where l: "lanes st = [l]" "lane_ok pl a st l"
    by (auto simp: lane_inv_def)
  show thesis
  proof (cases "k = 0")
    case False
    with l have "tick pl a k st = st" by (simp add: tick_def)
    then show thesis using False by (intro idle) simp_all
  next
    case k0: True
    show thesis
    proof (cases l)
      case (Awaiting i s)
      with l have st: "jobIndex st = int i" "i < length pl" "\<not> hasAborted st"
        by simp_all
      show thesis
      proof (cases "caught i s")
        case None
        with l Awaiting k0 have "tick pl a k st = st" by (simp add: tick_def)
        then show thesis using l Awaiting None by (intro idle) simp_all
      next
        case (Some r)
        with l Awaiting k0
        have t: "tick pl a k st = settle (onSettled pl a 0 i r st)"
          by (simp add: tick_def)
        show thesis
        proof (cases "has_error r \<and> a")
          case True
          with st l Awaiting have "onSettled pl a 0 i r st =
            st\<lparr>resultList := (resultList st)[i := r],
              trace := trace st @ [Write i r],
              hasAborted := True,
              lanes := [LaneRejected
               (JObj (AList.update ''resultList'' (JArr ((resultList st)[i := r])) (own_props r)))]\<rparr>"
            by (simp add: onSettled_abort)
          with t True Some l Awaiting k0 show thesis by (intro aborts) simp_all
        next
          case False
          show thesis
          proof (cases "length pl = Suc i")
            case True
            with st l Awaiting False have "onSettled pl a 0 i r st =
              st\<lparr>resultList := (resultList st)[i := slot_of i r],
                 jobIndex := int i + 1,
                 trace := trace st @ [Write i (slot_of i r), Claim (int i + 1)],
                 lanes := [LaneResolved]\<rparr>"
              by (simp add: onSettled_continue runNextPromise_last)
            with t True False Some l Awaiting k0 show thesis by (intro last) simp_all
          next
            case ne: False
            with st have lt: "Suc i < length pl" by simp
            with st l Awaiting False have "onSettled pl a 0 i r st =
              st\<lparr>resultList := (resultList st)[i := slot_of i r],
                 jobIndex := int i + 1,
                 trace := trace st @ [Write i (slot_of i r), Claim (int i + 1),
                                Invoke (Suc i) ((resultList st)[i := slot_of i r])],
                 lanes := [Awaiting (Suc i) ((pl ! Suc i) ((resultList st)[i := slot_of i r]))]\<rparr>"
              by (simp add: onSettled_continue runNextPromise_more nat_add_distrib)
            with t lt False Some l Awaiting k0 show thesis by (intro more) simp_all
          qed
        qed
      qed
    next
      case LaneResolved
      with l k0 have "tick pl a k st = st" by (simp add: tick_def)
      then show thesis using l LaneResolved by (intro idle) simp_all
    next
      case (LaneRejected r)
      with l k0 have "tick pl a k st = st" by (simp add: tick_def)
      then show thesis using l LaneRejected by (intro idle) simp_all
    qed
  qed
qed

lemma lane_inv_init: "lane_inv pl a (runSequentialPromises pl N a)"
  by (auto simp: lane_inv_def runSequentialPromises_def getPromiseThread_def runNextPromise_def Let_def)

lemma lane_inv_tick:
  assumes "lane_inv pl a st"
  shows "lane_inv pl a (tick pl a k st)"
  using assms
proof (cases rule: tick_cases [where k = k])
  case idle
  with assms show ?thesis by simp
next
  case (aborts i s r)
  with assms show ?thesis
    by (auto simp: lane_inv_def nth_list_update has_error_not_null)
next
  case (last i s r)
  with assms show ?thesis
    by (auto simp: lane_inv_def nth_list_update)
next
  case (more i s r)
  with assms show ?thesis
    by (auto simp: lane_inv_def nth_list_update)
qed

subsection \<open>The trace\<close>

lemma claimed_append [simp]: "claimed (xs @ ys) = claimed xs @ claimed ys"
  by (induction xs rule: claimed.induct) simp_all

lemma invoked_append [simp]: "invoked (xs @ ys) = invoked xs @ invoked ys"
  by (induction xs rule: invoked.induct) simp_all

lemma written_append [simp]: "written (xs @ ys) = written xs @ written ys"
  by (induction xs rule: written.induct) simp_all

lemma Invoke_invoked: "Invoke i snapshot \<in> set es \<Longrightarrow> i \<in> set (invoked es)"
  by (induction es rule: invoked.induct) auto

lemma Write_written: "Write i v \<in> set es \<Longrightarrow> i \<in> set (written es)"
  by (induction es rule: written.induct) auto

lemma trace_ok_settle [simp]: "trace_ok pl (settle st) l = trace_ok pl st l"
  by (cases l) simp_all

lemma trace_inv_settle [simp]: "trace_inv pl (settle st) = trace_inv pl st"
  by (simp add: trace_inv_def)

lemma events_inv_settle [simp]: "events_inv pl (settle st) = events_inv pl st"
  by (simp add: events_inv_def)

lemma trace_inv_init: "trace_inv pl (runSequentialPromises pl N a)"
  by (auto simp: trace_inv_def runSequentialPromises_def getPromiseThread_def
        runNextPromise_def Let_def)

lemma events_inv_init: "events_inv pl (runSequentialPromises pl N a)"
  by (auto simp: events_inv_def runSequentialPromises_def getPromiseThread_def
        runNextPromise_def Let_def)

lemma trace_inv_tick:
  assumes "lane_inv pl a st" "trace_inv pl st"
  shows "trace_inv pl (tick pl a k st)"
  using assms(1)
proof (cases rule: tick_cases [where k = k])
  case idle
  with assms show ?thesis by simp
next
  case (aborts i s r)
  with assms show ?thesis
    by (auto simp: trace_inv_def lane_inv_def)
next
  case (last i s r)
  with assms show ?thesis
    by (auto simp: trace_inv_def lane_inv_def)
next
  case (more i s r)
  with assms show ?thesis
    by (auto simp: trace_inv_def lane_inv_def)
qed

lemma awaiting_facts:
  assumes "lane_inv pl a st" "trace_inv pl st" "lanes st = [Awaiting i s]"
  shows "i < length pl" "s = (pl ! i) (resultList st)"
    "Invoke i (resultList st) \<in> set (trace st)"
    "\<And>i' x. Invoke i' x \<in> set (trace st) \<Longrightarrow> i' \<le> i"
    "\<And>i' v. Write i' v \<in> set (trace st) \<Longrightarrow> i' < i"
    "length (resultList st) = length pl"
    "\<And>j. j < i \<Longrightarrow> resultList st ! j \<noteq> JNull"
proof -
  from assms have l: "lane_ok pl a st (Awaiting i s)" "trace_ok pl st (Awaiting i s)"
    by (auto simp: lane_inv_def trace_inv_def)
  from l show "i < length pl" "s = (pl ! i) (resultList st)"
    "Invoke i (resultList st) \<in> set (trace st)" by simp_all
  from assms show "length (resultList st) = length pl" by (simp add: lane_inv_def)
  from l show "\<And>j. j < i \<Longrightarrow> resultList st ! j \<noteq> JNull" by simp
  { fix i' x assume "Invoke i' x \<in> set (trace st)"
    then have "i' \<in> set (invoked (trace st))" by (rule Invoke_invoked)
    with l show "i' \<le> i" by auto }
  { fix i' v assume "Write i' v \<in> set (trace st)"
    then have "i' \<in> set (written (trace st))" by (rule Write_written)
    with l show "i' < i" by simp }
qed

lemma events_inv_write:
  assumes ev: "events_inv pl st"
    and len: "length (resultList st) = length pl" and i: "i < length pl"
    and inv: "Invoke i (resultList st) \<in> set (trace st)"
    and le: "\<And>i' x. Invoke i' x \<in> set (trace st) \<Longrightarrow> i' \<le> i"
    and lt: "\<And>i' v. Write i' v \<in> set (trace st) \<Longrightarrow> i' < i"
    and c: "caught i ((pl ! i) (resultList st)) = Some r" and v: "v = slot_of i r"
    and rl: "resultList st' = (resultList st)[i := v]"
    and tr: "set (trace st') \<subseteq> insert (Write i v)
               (insert (Invoke (Suc i) (resultList st')) (set (trace st) \<union> range Claim))"
    and sup: "set (trace st) \<subseteq> set (trace st')"
    and nn: "\<And>j. j < i \<Longrightarrow> resultList st ! j \<noteq> JNull"
    and nl: "\<And>j. i \<le> j \<Longrightarrow> j < length pl \<Longrightarrow> resultList st ! j = JNull"
  shows "events_inv pl st'"
proof -
  from c v have vn: "v \<noteq> JNull" by simp
  have inv_ok: "length x = length pl \<and>
        (\<forall>j<i'. x ! j = resultList st' ! j \<and> x ! j \<noteq> JNull) \<and>
        (\<forall>j. i' \<le> j \<and> j < length pl \<longrightarrow> x ! j = JNull)"
    if m: "Invoke i' x \<in> set (trace st')" for i' x
  proof -
    from m tr have "Invoke i' x = Invoke (Suc i) (resultList st') \<or> Invoke i' x \<in> set (trace st)"
      by auto
    then show ?thesis
    proof
      assume "Invoke i' x = Invoke (Suc i) (resultList st')"
      then have e: "i' = Suc i" "x = (resultList st)[i := v]" by (simp_all add: rl)
      show ?thesis
        unfolding e rl using len i vn nn nl
        by (auto simp: nth_list_update less_Suc_eq)
    next
      assume old: "Invoke i' x \<in> set (trace st)"
      from le [OF old] have i'i: "i' \<le> i" .
      from ev old have o: "length x = length pl"
        "\<forall>j<i'. x ! j = resultList st ! j \<and> x ! j \<noteq> JNull"
        "\<forall>j. i' \<le> j \<and> j < length pl \<longrightarrow> x ! j = JNull"
        unfolding events_inv_def by blast+
      from o i'i show ?thesis
        unfolding rl by (auto simp: nth_list_update)
    qed
  qed
  have wr_ok: "resultList st' ! i' = w \<and>
        (\<exists>x r. Invoke i' x \<in> set (trace st') \<and>
           caught i' ((pl ! i') x) = Some r \<and> w = slot_of i' r)"
    if m: "Write i' w \<in> set (trace st')" for i' w
  proof -
    from m tr have "Write i' w = Write i v \<or> Write i' w \<in> set (trace st)"
      by auto
    then show ?thesis
    proof
      assume "Write i' w = Write i v"
      then have e: "i' = i" "w = v" by simp_all
      from inv sup have "Invoke i (resultList st) \<in> set (trace st')" by blast
      with c v show ?thesis
        unfolding e rl using len i by auto
    next
      assume old: "Write i' w \<in> set (trace st)"
      from lt [OF old] have i'i: "i' < i" .
      from ev old have o: "resultList st ! i' = w"
        "\<exists>x r. Invoke i' x \<in> set (trace st) \<and>
           caught i' ((pl ! i') x) = Some r \<and> w = slot_of i' r"
        unfolding events_inv_def by blast+
      from o(2) sup have "\<exists>x r. Invoke i' x \<in> set (trace st') \<and>
           caught i' ((pl ! i') x) = Some r \<and> w = slot_of i' r" by blast
      with o(1) i'i show ?thesis
        unfolding rl by simp
    qed
  qed
  from inv_ok wr_ok show ?thesis
    unfolding events_inv_def by blast
qed

lemma events_inv_tick:
  assumes "lane_inv pl a st" "trace_inv pl st" "events_inv pl st"
  shows "events_inv pl (tick pl a k st)"
  using assms(1)
proof (cases rule: tick_cases [where k = k])
  case idle
  with assms show ?thesis by simp
next
  case (aborts i s r)
  note f = awaiting_facts [OF assms(1,2) aborts(2)]
  from assms(1) aborts(2) have nl: "\<And>j. i \<le> j \<Longrightarrow> j < length pl \<Longrightarrow> resultList st ! j = JNull"
    by (simp add: lane_inv_def)
  from aborts(3,4) f(2) have c: "caught i ((pl ! i) (resultList st)) = Some r" "r = slot_of i r"
    by (simp_all add: slot_of_def)
  show ?thesis
    unfolding aborts(6) events_inv_settle
    by (rule events_inv_write [OF assms(3) f(6) f(1) f(3) f(4) f(5) c]) (auto simp: f(7) nl)
next
  case (last i s r)
  note f = awaiting_facts [OF assms(1,2) last(2)]
  from assms(1) last(2) have nl: "\<And>j. i \<le> j \<Longrightarrow> j < length pl \<Longrightarrow> resultList st ! j = JNull"
    by (simp add: lane_inv_def)
  from last(3) f(2) have c: "caught i ((pl ! i) (resultList st)) = Some r"
    by simp
  show ?thesis
    unfolding last(6) events_inv_settle
    by (rule events_inv_write [OF assms(3) f(6) f(1) f(3) f(4) f(5) c refl]) (auto simp: f(7) nl)
next
  case (more i s r)
  note f = awaiting_facts [OF assms(1,2) more(2)]
  from assms(1) more(2) have nl: "\<And>j. i \<le> j \<Longrightarrow> j < length pl \<Longrightarrow> resultList st ! j = JNull"
    by (simp add: lane_inv_def)
  from more(3) f(2) have c: "caught i ((pl ! i) (resultList st)) = Some r"
    by simp
  show ?thesis
    unfolding more(6) events_inv_settle
    by (rule events_inv_write [OF assms(3) f(6) f(1) f(3) f(4) f(5) c refl]) (auto simp: f(7) nl)
qed

lemma invocations_append:
  "invocations d (xs @ ys) = invocations d xs @ invocations (d @ written xs) ys"
  by (induction d xs rule: invocations.induct) simp_all

lemma order_inv_settle [simp]: "order_inv (settle st) = order_inv st"
  by (simp add: order_inv_def)

lemma order_inv_init: "order_inv (runSequentialPromises pl N a)"
  by (auto simp: order_inv_def runSequentialPromises_def getPromiseThread_def
        runNextPromise_def Let_def)

lemma order_inv_tick:
  assumes "lane_inv pl a st" "trace_inv pl st" "order_inv st"
  shows "order_inv (tick pl a k st)"
  using assms(1)
proof (cases rule: tick_cases [where k = k])
  case idle
  with assms show ?thesis by simp
next
  case (aborts i s r)
  with assms show ?thesis
    by (auto simp: order_inv_def trace_inv_def invocations_append)
next
  case (last i s r)
  with assms show ?thesis
    by (auto simp: order_inv_def trace_inv_def invocations_append)
next
  case (more i s r)
  with assms show ?thesis
    by (auto simp: order_inv_def trace_inv_def invocations_append)
qed

lemma abort_inv_settle [simp]: "abort_inv a (settle st) = abort_inv a st"
  by (simp add: abort_inv_def)

lemma abort_inv_init: "abort_inv a (runSequentialPromises pl N a)"
  by (auto simp: abort_inv_def runSequentialPromises_def getPromiseThread_def
        runNextPromise_def Let_def)

lemma slot_of_no_error: "\<not> has_error r \<Longrightarrow> \<not> has_error (slot_of i r)"
  by (simp add: slot_of_def has_error_def)

lemma abort_inv_tick:
  assumes "lane_inv pl a st" "abort_inv a st"
  shows "abort_inv a (tick pl a k st)"
  using assms(1)
proof (cases rule: tick_cases [where k = k])
  case idle
  with assms show ?thesis by simp
next
  case (aborts i s r)
  from assms(1) aborts(2) have st: "\<not> hasAborted st" "jobIndex st = int i"
    by (simp_all add: lane_inv_def)
  with assms(2) have "\<And>j v. a \<Longrightarrow> Write j v \<in> set (trace st) \<Longrightarrow> \<not> has_error v"
    unfolding abort_inv_def by blast
  with st show ?thesis
    unfolding aborts(6) abort_inv_settle abort_inv_def by auto
next
  case (last i s r)
  from assms(1) last(2) have st: "\<not> hasAborted st"
    by (simp add: lane_inv_def)
  with assms(2) have "\<And>j v. a \<Longrightarrow> Write j v \<in> set (trace st) \<Longrightarrow> \<not> has_error v"
    unfolding abort_inv_def by blast
  with last(4) show ?thesis
    unfolding last(6) abort_inv_settle abort_inv_def by (auto dest: slot_of_no_error)
next
  case (more i s r)
  from assms(1) more(2) have st: "\<not> hasAborted st"
    by (simp add: lane_inv_def)
  with assms(2) have "\<And>j v. a \<Longrightarrow> Write j v \<in> set (trace st) \<Longrightarrow> \<not> has_error v"
    unfolding abort_inv_def by blast
  with more(4) show ?thesis
    unfolding more(6) abort_inv_settle abort_inv_def by (auto dest: slot_of_no_error)
qed

lemma run_inv_init: "run_inv pl a (runSequentialPromises pl N a)"
  by (simp add: run_inv_def lane_inv_init trace_inv_init events_inv_init order_inv_init
        abort_inv_init)

lemma run_inv_tick: "run_inv pl a st \<Longrightarrow> run_inv pl a (tick pl a k st)"
  by (simp add: run_inv_def lane_inv_tick trace_inv_tick events_inv_tick order_inv_tick
        abort_inv_tick)

lemma run_inv_ticks: "run_inv pl a st \<Longrightarrow> run_inv pl a (ticks pl a sched st)"
  by (induction sched arbitrary: st) (simp_all add: run_inv_tick)

lemma run_inv_run: "run_inv pl a (run pl N a sched)"
  by (simp add: run_def run_inv_ticks run_inv_init)

lemma ticks_append:
  "ticks pl a (xs @ ys) st = ticks pl a ys (ticks pl a xs st)"
  by (induction xs arbitrary: st) simp_all

lemma run_append: "run pl N a (xs @ ys) = ticks pl a ys (run pl N a xs)"
  by (simp add: run_def ticks_append)



subsection \<open>The returned promise\<close>

lemma promise_runNextPromise [simp]:
  "promise (runNextPromise pl k st) = promise st"
  "threads (runNextPromise pl k st) = threads st"
  by (simp_all add: runNextPromise_def Let_def)

lemma promise_onSettled [simp]:
  "promise (onSettled pl a k i r st) = promise st"
  "threads (onSettled pl a k i r st) = threads st"
  by (simp_all add: onSettled_def Let_def)

lemma promise_tick_stable:
  "promise st = Some f \<Longrightarrow> promise (tick pl a k st) = Some f"
  by (simp add: tick_def settle_def split: lane.splits option.splits)

lemma promise_ticks_stable:
  "promise st = Some f \<Longrightarrow> promise (ticks pl a sched st) = Some f"
  by (induction sched arbitrary: st) (simp_all add: promise_tick_stable)

lemma threads_tick [simp]: "threads (tick pl a k st) = threads st"
  by (simp add: tick_def split: lane.splits option.splits)

lemma threads_ticks [simp]: "threads (ticks pl a sched st) = threads st"
  by (induction sched arbitrary: st) simp_all

lemma threads_init [simp]: "threads (runSequentialPromises pl N a) = replicate N 0"
  by (simp add: runSequentialPromises_def getPromiseThread_def Let_def)

lemma threads_run [simp]: "threads (run pl N a sched) = replicate N 0"
  by (simp add: run_def runSequentialPromises_def getPromiseThread_def Let_def)

lemma first_rejection_single:
  "first_rejection [l] (replicate N 0) =
     (if N = 0 then None else case l of LaneRejected r \<Rightarrow> Some r | _ \<Rightarrow> None)"
  by (induction N) (simp_all split: lane.splits)

lemma list_all_replicate: "list_all P (replicate N x) = (N = 0 \<or> P x)"
  by (induction N) auto

lemma promise_all_single:
  "lanes st = [l] \<Longrightarrow> threads st = replicate N 0 \<Longrightarrow> 0 < N \<Longrightarrow>
   promise_all_then st = lane_fate l"
  by (cases l) (simp_all add: promise_all_then_def first_rejection_single list_all_replicate)

lemma promise_all_none:
  "threads st = [] \<Longrightarrow> promise_all_then st = Some FulfilledWithResultList"
  by (simp add: promise_all_then_def)

lemma ret_inv_init: "0 < N \<Longrightarrow> ret_inv (runSequentialPromises pl N a)"
  by (auto simp: ret_inv_def runSequentialPromises_def getPromiseThread_def
        runNextPromise_def Let_def settle_def promise_all_single)

lemma ret_inv_settle:
  assumes "lanes st = [l]" "threads st = replicate N 0" "0 < N"
    and "promise st = None"
  shows "ret_inv (settle st)"
  using assms by (simp add: ret_inv_def settle_def promise_all_single)

lemma ret_inv_tick:
  assumes "lane_inv pl a st" "ret_inv st" "threads st = replicate N 0" "0 < N"
  shows "ret_inv (tick pl a k st)"
  using assms(1)
proof (cases rule: tick_cases [where k = k])
  case idle
  with assms show ?thesis by simp
next
  case (aborts i s r)
  from assms(2) aborts(2) have "promise st = None" by (simp add: ret_inv_def)
  with assms(3,4) show ?thesis
    unfolding aborts(6) by (intro ret_inv_settle) simp_all
next
  case (last i s r)
  from assms(2) last(2) have "promise st = None" by (simp add: ret_inv_def)
  with assms(3,4) show ?thesis
    unfolding last(6) by (intro ret_inv_settle) simp_all
next
  case (more i s r)
  from assms(2) more(2) have "promise st = None" by (simp add: ret_inv_def)
  with assms(3,4) show ?thesis
    unfolding more(6) by (intro ret_inv_settle) simp_all
qed

lemma ret_inv_ticks:
  "lane_inv pl a st \<Longrightarrow> ret_inv st \<Longrightarrow> threads st = replicate N 0 \<Longrightarrow> 0 < N \<Longrightarrow>
   ret_inv (ticks pl a sched st)"
  by (induction sched arbitrary: st) (simp_all add: ret_inv_tick lane_inv_tick)

lemma ret_inv_run:
  assumes "0 < N"
  shows "ret_inv (run pl N a sched)"
  unfolding run_def
  using lane_inv_init ret_inv_init [OF assms] threads_init assms
  by (rule ret_inv_ticks)

lemma returned_lane:
  "lanes st = [l] \<Longrightarrow> promise st = lane_fate l \<Longrightarrow>
   returned st = lane_result (resultList st) l"
  by (cases l) (simp_all add: returned_def)

lemma returned_run_lane:
  assumes "0 < N" "lanes (run pl N a sched) = [l]"
  shows "returned (run pl N a sched) = lane_result (resultList (run pl N a sched)) l"
    and "promise (run pl N a sched) = lane_fate l"
proof -
  from assms(1) have "ret_inv (run pl N a sched)" by (rule ret_inv_run)
  with assms(2) show "promise (run pl N a sched) = lane_fate l"
    by (simp add: ret_inv_def)
  with assms(2) show "returned (run pl N a sched) = lane_result (resultList (run pl N a sched)) l"
    by (rule returned_lane)
qed

lemma promise_init_zero:
  "promise (runSequentialPromises pl 0 a) = Some FulfilledWithResultList"
  by (simp add: runSequentialPromises_def getPromiseThread_def Let_def settle_def
        promise_all_none)

lemma promise_run_zero: "promise (run pl 0 a sched) = Some FulfilledWithResultList"
  by (simp add: run_def promise_ticks_stable promise_init_zero)

lemma returned_run_zero:
  "returned (run pl 0 a sched) = Some (Resolves (resultList (run pl 0 a sched)))"
  by (simp add: returned_def promise_run_zero)

subsection \<open>Schedules\<close>

text \<open>
  Only lane 0 exists, so a schedule acts as a number of turns of lane 0. A lane that
  has resolved or rejected, or that waits for a promise that never settles, takes no
  further turn.
\<close>

lemma tick_other_lane: "lane_inv pl a st \<Longrightarrow> k \<noteq> 0 \<Longrightarrow> tick pl a k st = st"
  by (auto simp: tick_def lane_inv_def)

lemma ticks_single_lane:
  "lane_inv pl a st \<Longrightarrow> \<exists>c. ticks pl a sched st = ticks pl a (replicate c 0) st"
proof (induction sched arbitrary: st)
  case Nil
  have "ticks pl a [] st = ticks pl a (replicate 0 0) st" by simp
  then show ?case by blast
next
  case (Cons k ks)
  show ?case
  proof (cases "k = 0")
    case True
    from Cons.prems have "lane_inv pl a (tick pl a 0 st)" by (rule lane_inv_tick)
    from Cons.IH [OF this] obtain c
      where "ticks pl a ks (tick pl a 0 st) = ticks pl a (replicate c 0) (tick pl a 0 st)" ..
    with True have "ticks pl a (k # ks) st = ticks pl a (replicate (Suc c) 0) st" by simp
    then show ?thesis by blast
  next
    case False
    with Cons.prems have "tick pl a k st = st" by (rule tick_other_lane)
    with Cons.IH [OF Cons.prems] show ?thesis by simp
  qed
qed

lemma run_single_lane: "\<exists>c. run pl N a sched = run pl N a (replicate c 0)"
  unfolding run_def by (rule ticks_single_lane) (rule lane_inv_init)

lemma tick_finished:
  "lanes st = [l] \<Longrightarrow> lane_fate l \<noteq> None \<Longrightarrow> tick pl a k st = st"
  by (cases l; cases k) (simp_all add: tick_def)

lemma ticks_finished:
  "lanes st = [l] \<Longrightarrow> lane_fate l \<noteq> None \<Longrightarrow> ticks pl a sched st = st"
  by (induction sched) (simp_all add: tick_finished)



text \<open>
  With \<open>threads\<close> not empty, a state in which the returned promise has settled is
  final, so the outcome is the same under every schedule.
\<close>

lemma returned_final:
  assumes "0 < N" "returned (run pl N a sched) = Some out"
  shows "run pl N a (sched @ later) = run pl N a sched"
proof -
  obtain l where l: "lanes (run pl N a sched) = [l]"
    using run_inv_run [of pl a N sched] by (auto simp: run_inv_def lane_inv_def)
  from returned_run_lane [OF assms(1) l] assms(2) have "lane_fate l \<noteq> None"
    by (cases l) simp_all
  with l show ?thesis by (simp add: run_append ticks_finished)
qed

lemma returned_unique:
  assumes "0 < N"
    and "returned (run pl N a s1) = Some o1" "returned (run pl N a s2) = Some o2"
  shows "o1 = o2"
proof -
  from run_single_lane obtain c1 where c1: "run pl N a s1 = run pl N a (replicate c1 0)" ..
  from run_single_lane obtain c2 where c2: "run pl N a s2 = run pl N a (replicate c2 0)" ..
  from assms c1 c2 have r:
    "returned (run pl N a (replicate c1 0)) = Some o1"
    "returned (run pl N a (replicate c2 0)) = Some o2"
    by simp_all
  show ?thesis
  proof (cases "c1 \<le> c2")
    case True
    then have "replicate c2 (0::nat) = replicate c1 0 @ replicate (c2 - c1) 0"
      by (simp add: replicate_add [symmetric])
    with returned_final [OF assms(1) r(1), of "replicate (c2 - c1) 0"] r show ?thesis
      by simp
  next
    case False
    then have "replicate c1 (0::nat) = replicate c2 0 @ replicate (c1 - c2) 0"
      by (simp add: replicate_add [symmetric])
    with returned_final [OF assms(1) r(2), of "replicate (c1 - c2) 0"] r show ?thesis
      by simp
  qed
qed

text \<open>
  If every job's promise settles, the lane that still waits after \<open>c\<close> turns waits for
  job \<open>c\<close>; after as many turns as there are jobs the lane has finished.
\<close>

lemma progress:
  assumes settles: "\<And>i snapshot. i < length pl \<Longrightarrow> (pl ! i) snapshot \<noteq> NeverSettles"
  shows "lanes (run pl N a (replicate c 0)) = [Awaiting i s] \<Longrightarrow> i = c"
proof (induction c arbitrary: i s)
  case 0
  then show ?case
    by (auto simp: run_def runSequentialPromises_def getPromiseThread_def
        runNextPromise_def Let_def split: if_splits)
next
  case (Suc c)
  let ?st = "run pl N a (replicate c 0)"
  have "replicate (Suc c) (0::nat) = replicate c 0 @ [0]"
    by (simp add: replicate_append_same)
  then have step: "run pl N a (replicate (Suc c) 0) = tick pl a 0 ?st"
    by (simp only: run_append ticks.simps)
  have inv: "lane_inv pl a ?st" using run_inv_run by (simp add: run_inv_def)
  from inv show ?case
  proof (cases rule: tick_cases [where k = 0])
    case idle
    with Suc.prems step have l: "lanes ?st = [Awaiting i s]" by simp
    with idle(2) have "caught i s = None" by simp
    moreover from inv l have "i < length pl" "s = (pl ! i) (resultList ?st)"
      by (simp_all add: lane_inv_def)
    ultimately show ?thesis using settles [of i "resultList ?st"]
      by (simp add: caught_def split: settlement.splits)
  next
    case (aborts i' s' r)
    with Suc.prems step show ?thesis by simp
  next
    case (last i' s' r)
    with Suc.prems step show ?thesis by simp
  next
    case (more i' s' r)
    from Suc.IH [OF more(2)] have "i' = c" .
    with more Suc.prems step show ?thesis by simp
  qed
qed

lemma lane_finishes:
  assumes settles: "\<And>i snapshot. i < length pl \<Longrightarrow> (pl ! i) snapshot \<noteq> NeverSettles"
  obtains l where "lanes (run pl N a (replicate (length pl) 0)) = [l]" "lane_fate l \<noteq> None"
    "lane_ok pl a (run pl N a (replicate (length pl) 0)) l"
proof -
  let ?st = "run pl N a (replicate (length pl) 0)"
  have "lane_inv pl a ?st" using run_inv_run by (simp add: run_inv_def)
  then obtain l where l: "lanes ?st = [l]" "lane_ok pl a ?st l"
    by (auto simp: lane_inv_def)
  have "lane_fate l \<noteq> None"
  proof (cases l)
    case (Awaiting i s)
    with l progress [OF settles, of N a "length pl" i s] show ?thesis by simp
  next
    case LaneResolved
    then show ?thesis by simp
  next
    case (LaneRejected r)
    then show ?thesis by simp
  qed
  with l(1) show thesis using l(2) by (rule that)
qed

lemma run_settles:
  assumes settles: "\<And>i snapshot. i < length pl \<Longrightarrow> (pl ! i) snapshot \<noteq> NeverSettles"
    and "0 < N"
  shows "\<exists>out. returned (run pl N a (replicate (length pl) 0)) = Some out"
proof -
  obtain l where l: "lanes (run pl N a (replicate (length pl) 0)) = [l]" "lane_fate l \<noteq> None"
    using lane_finishes [OF settles, of N a] by blast
  from returned_run_lane(1) [OF assms(2) l(1)] l(2) show ?thesis
    by (cases l) simp_all
qed

subsection \<open>Independence of \<open>threadsNumber\<close>\<close>

lemma same_core_tick:
  "same_core st st' \<Longrightarrow> same_core (tick pl a k st) (tick pl a k st')"
  by (auto simp: same_core_def tick_def onSettled_def runNextPromise_def Let_def
      split: lane.splits option.splits)

lemma same_core_ticks:
  "same_core st st' \<Longrightarrow> same_core (ticks pl a sched st) (ticks pl a sched st')"
  by (induction sched arbitrary: st st') (simp_all add: same_core_tick)

lemma same_core_run: "same_core (run pl N a sched) (run pl M a sched)"
  unfolding run_def
  by (rule same_core_ticks)
     (simp add: same_core_def runSequentialPromises_def getPromiseThread_def Let_def)

lemma returned_run_pos:
  assumes "0 < N" "0 < M"
  shows "returned (run pl N a sched) = returned (run pl M a sched)"
proof -
  obtain l where l: "lanes (run pl N a sched) = [l]"
    using run_inv_run [of pl a N sched] by (auto simp: run_inv_def lane_inv_def)
  from same_core_run [of pl N a sched M]
  have c: "lanes (run pl M a sched) = lanes (run pl N a sched)"
    "resultList (run pl M a sched) = resultList (run pl N a sched)"
    by (simp_all add: same_core_def)
  from l c have l': "lanes (run pl M a sched) = [l]" by simp
  from returned_run_lane(1) [OF assms(1) l] returned_run_lane(1) [OF assms(2) l'] c
  show ?thesis by simp
qed

lemma returned_run_empty: "returned (run [] N a sched) = Some (Resolves [])"
proof -
  let ?st = "run [] N a sched"
  have "lane_inv [] a ?st" using run_inv_run by (simp add: run_inv_def)
  then obtain l where l: "lanes ?st = [l]" "lane_ok [] a ?st l" and e: "resultList ?st = []"
    by (auto simp: lane_inv_def)
  show ?thesis
  proof (cases "N = 0")
    case True
    with e show ?thesis by (simp add: returned_run_zero)
  next
    case False
    then have "returned ?st = lane_result (resultList ?st) l"
      using l(1) by (intro returned_run_lane) simp_all
    with l(2) e show ?thesis by (cases l) auto
  qed
qed

subsection \<open>The shape of a run\<close>

lemma one_lane: "\<exists>l. lanes (run pl N a sched) = [l]"
  using run_inv_run [of pl a N sched] by (auto simp: run_inv_def lane_inv_def)

lemma in_flight_single: "length (in_flight [l]) \<le> Suc 0"
  by (cases l) simp_all

lemma lane_trace_run:
  obtains l where "lanes (run pl N a sched) = [l]"
    "lane_ok pl a (run pl N a sched) l" "trace_ok pl (run pl N a sched) l"
    "length (resultList (run pl N a sched)) = length pl"
  using run_inv_run [of pl a N sched]
  by (auto simp: run_inv_def lane_inv_def trace_inv_def)










text \<open>
  Without \<open>abortOnFail\<close> the returned promise is never rejected, and once every job has
  settled the lane has resolved and the promise is fulfilled with a list that has no
  \<open>null\<close> slot.
\<close>

lemma never_rejects: "returned (run pl N False sched) \<noteq> Some (Rejects r)"
proof (cases "N = 0")
  case True
  then show ?thesis by (simp add: returned_run_zero)
next
  case False
  let ?st = "run pl N False sched"
  obtain l where l: "lanes ?st = [l]" "lane_ok pl False ?st l"
    by (rule lane_trace_run [of pl N False sched])
  from False l(1) have "returned ?st = lane_result (resultList ?st) l"
    by (intro returned_run_lane) simp_all
  with l(2) show ?thesis by (cases l) simp_all
qed

lemma no_abort_resolves:
  assumes "\<And>i snapshot. i < length pl \<Longrightarrow> (pl ! i) snapshot \<noteq> NeverSettles"
  shows "lanes (run pl N False (replicate (length pl) 0)) = [LaneResolved]"
proof -
  obtain l where l: "lanes (run pl N False (replicate (length pl) 0)) = [l]"
    "lane_fate l \<noteq> None" "lane_ok pl False (run pl N False (replicate (length pl) 0)) l"
    using lane_finishes [OF assms, of N False] by blast
  from l(2,3) have "l = LaneResolved" by (cases l) simp_all
  with l(1) show ?thesis by simp
qed

lemma all_slots_filled:
  assumes "\<And>i snapshot. i < length pl \<Longrightarrow> (pl ! i) snapshot \<noteq> NeverSettles" and "0 < N"
  shows "\<exists>rl. returned (run pl N False (replicate (length pl) 0)) = Some (Resolves rl) \<and>
           length rl = length pl \<and> (\<forall>j<length pl. rl ! j \<noteq> JNull)"
proof -
  let ?st = "run pl N False (replicate (length pl) 0)"
  have r: "lanes ?st = [LaneResolved]" using assms(1) by (rule no_abort_resolves)
  obtain l where l: "lanes ?st = [l]" "lane_ok pl False ?st l"
    "length (resultList ?st) = length pl"
    by (rule lane_trace_run [of pl N False "replicate (length pl) 0"])
  from r l(1) have "l = LaneResolved" by simp
  with l returned_run_lane(1) [OF assms(2) r] show ?thesis by simp
qed

text \<open>The definitions to unfold when a run is evaluated on given jobs.\<close>

lemmas run_simps = run_def runSequentialPromises_def getPromiseThread_def runNextPromise_def
  onSettled_def tick_def settle_def promise_all_then_def caught_def has_error_def Let_def
  fulfilling_def rejecting_def never_settling_def returned_def first_rejection_single list_all_replicate

section \<open>The claims\<close>

text \<open>
  C1. The specification has \<open>run(jobs, {laneCount: N})\<close> start \<open>N\<close> distinct lanes, so
  that two jobs can be in flight at once and each excess lane claims one out-of-range
  index. The program makes one lane whatever \<open>threadsNumber\<close> is: with two jobs and
  \<open>threadsNumber = 3\<close>, under every schedule there is one lane and at most one job in
  flight; \<open>threads\<close> holds the same promise three times; the call itself claims index 0
  only, and the whole run claims 0, 1 and a single out-of-range index 2.
\<close>

theorem C1_threads_share_one_lane:
  "length (lanes (run [fulfilling (JNum 1), fulfilling (JNum 2)] 3 True sched)) = 1 \<and>
   length (in_flight (lanes (run [fulfilling (JNum 1), fulfilling (JNum 2)] 3 True sched))) \<le> 1 \<and>
   threads (runSequentialPromises [fulfilling (JNum 1), fulfilling (JNum 2)] 3 True) = [0, 0, 0] \<and>
   in_flight (lanes (runSequentialPromises [fulfilling (JNum 1), fulfilling (JNum 2)] 3 True)) = [0] \<and>
   claimed (trace (runSequentialPromises [fulfilling (JNum 1), fulfilling (JNum 2)] 3 True)) = [0] \<and>
   claimed (trace (run [fulfilling (JNum 1), fulfilling (JNum 2)] 3 True [0, 0])) = [0, 1, 2]"
proof -
  obtain l where "lanes (run [fulfilling (JNum 1), fulfilling (JNum 2)] 3 True sched) = [l]"
    using one_lane by blast
  then have "length (lanes (run [fulfilling (JNum 1), fulfilling (JNum 2)] 3 True sched)) = 1"
    "length (in_flight (lanes (run [fulfilling (JNum 1), fulfilling (JNum 2)] 3 True sched))) \<le> 1"
    by (simp_all add: in_flight_single)
  moreover have
    "threads (runSequentialPromises [fulfilling (JNum 1), fulfilling (JNum 2)] 3 True) = [0, 0, 0]"
    by (simp add: run_simps eval_nat_numeral)
  moreover have
    "in_flight (lanes (runSequentialPromises [fulfilling (JNum 1), fulfilling (JNum 2)] 3 True)) = [0]"
    "claimed (trace (runSequentialPromises [fulfilling (JNum 1), fulfilling (JNum 2)] 3 True)) = [0]"
    by (simp_all add: run_simps)
  moreover have
    "claimed (trace (run [fulfilling (JNum 1), fulfilling (JNum 2)] 3 True [0, 0])) = [0, 1, 2]"
    by (simp add: run_simps)
  ultimately show ?thesis by blast
qed

text \<open>
  C2. The specification has a job that succeeds with any value \<open>v\<close>, also an object
  with an \<open>error\<close> property, recorded as \<open>{ promiseIndex, data: v }\<close> without abort or
  rejection. The program takes such a value for a failure: the job that is fulfilled
  with \<open>{ error: 'boom' }\<close> has the bare value stored in its slot, \<open>hasAborted\<close> is set and
  the returned promise is rejected.
\<close>

theorem C2_error_property_taken_for_failure:
  "resultList (run [fulfilling (JObj [(''error'', JStr ''boom'')])] 1 True [0]) =
     [JObj [(''error'', JStr ''boom'')]] \<and>
   hasAborted (run [fulfilling (JObj [(''error'', JStr ''boom'')])] 1 True [0]) = True \<and>
   returned (run [fulfilling (JObj [(''error'', JStr ''boom'')])] 1 True [0]) =
     Some (Rejects (JObj [(''error'', JStr ''boom''),
       (''resultList'', JArr [JObj [(''error'', JStr ''boom'')]])]))"
  by (simp add: run_simps)

text \<open>
  C3. The specification has a job that fails with any reason \<open>e\<close>, also \<open>undefined\<close>,
  recorded as \<open>{ promiseIndex, error: e }\<close>, and under \<open>abortOnFail\<close> the run aborted and
  rejected. The program takes a rejection with \<open>undefined\<close> for a success: the slot is
  \<open>{ promiseIndex: 0, data: { promiseIndex: 0, error: undefined } }\<close>, \<open>hasAborted\<close> stays
  false and the returned promise is fulfilled.
\<close>

theorem C3_undefined_reason_recorded_as_success:
  "resultList (run [rejecting JUndefined] 1 True [0]) =
     [success_slot 0 (failure_slot 0 JUndefined)] \<and>
   hasAborted (run [rejecting JUndefined] 1 True [0]) = False \<and>
   returned (run [rejecting JUndefined] 1 True [0]) =
     Some (Resolves [success_slot 0 (failure_slot 0 JUndefined)])"
  by (simp add: run_simps success_slot_def failure_slot_def)

text \<open>
  C4. The specification has a run without \<open>abortOnFail\<close>, all of whose jobs settle,
  fulfilled with a list in which every slot is a success or a failure slot of its index.
  In the program the slot of a job fulfilled with \<open>{ error: 'boom' }\<close> is that bare
  value, which is neither \<open>{ promiseIndex: 0, data }\<close> nor \<open>{ promiseIndex: 0, error }\<close>.
  (That the promise is never rejected and that no slot stays \<open>null\<close> are the lemmas
  \<open>never_rejects\<close> and \<open>all_slots_filled\<close>.)
\<close>

theorem C4_slot_neither_success_nor_failure:
  "returned (run [fulfilling (JObj [(''error'', JStr ''boom'')]), fulfilling (JNum 2)]
       1 False [0, 0]) =
     Some (Resolves [JObj [(''error'', JStr ''boom'')], success_slot 1 (JNum 2)]) \<and>
   (\<forall>d. JObj [(''error'', JStr ''boom'')] \<noteq> success_slot 0 d) \<and>
   (\<forall>err. JObj [(''error'', JStr ''boom'')] \<noteq> failure_slot 0 err)"
  by (simp add: run_simps success_slot_def failure_slot_def)

text \<open>
  C5. The specification has every run under \<open>abortOnFail\<close> in which some job fails
  rejected with the failing job's index, its error and the snapshot. In the program a
  job that is rejected with \<open>undefined\<close> does not abort the run: the three jobs all run,
  the failed job's slot has the form of a success, and the returned promise is fulfilled.
\<close>

theorem C5_failure_without_rejection:
  "returned (run [fulfilling (JNum 1), rejecting JUndefined, fulfilling (JNum 3)]
       1 True [0, 0, 0]) =
     Some (Resolves [success_slot 0 (JNum 1), success_slot 1 (failure_slot 1 JUndefined),
       success_slot 2 (JNum 3)]) \<and>
   hasAborted (run [fulfilling (JNum 1), rejecting JUndefined, fulfilling (JNum 3)]
       1 True [0, 0, 0]) = False"
  by (simp add: run_simps success_slot_def failure_slot_def)




text \<open>
  C7. For \<open>N > jobs.length\<close>, a run with \<open>threadsNumber = N\<close> and a run with
  \<open>threadsNumber = jobs.length\<close> give the same outcome: under every schedule the returned
  promise is in the same state, pending, fulfilled with the same list or rejected with
  the same payload.
\<close>

theorem C7_lane_saturation:
  assumes "length pl < N"
  shows "returned (run pl N a sched) = returned (run pl (length pl) a sched)"
proof (cases "pl = []")
  case True
  then show ?thesis by (simp add: returned_run_empty)
next
  case False
  with assms have "0 < N" "0 < length pl" by simp_all
  then show ?thesis by (rule returned_run_pos)
qed

theorem C7_lane_saturation_witness:
  "length [fulfilling (JNum 1), rejecting (JStr ''x'')] < 5 \<and>
   returned (run [fulfilling (JNum 1), rejecting (JStr ''x'')] 5 True [0, 0]) =
   returned (run [fulfilling (JNum 1), rejecting (JStr ''x'')] 2 True [0, 0]) \<and>
   returned (run [fulfilling (JNum 1), rejecting (JStr ''x'')] 2 True [0, 0]) =
     Some (Rejects (JObj [(''promiseIndex'', JNum 1), (''error'', JStr ''x''),
       (''resultList'', JArr [success_slot 0 (JNum 1), failure_slot 1 (JStr ''x'')])]))"
  using C7_lane_saturation [of "[fulfilling (JNum 1), rejecting (JStr ''x'')]" 5 True "[0, 0]"]
  by (simp add: run_simps success_slot_def failure_slot_def)

text \<open>
  C8. For every \<open>threadsNumber \<ge> 1\<close>, in every state of a run: at most one job is in
  flight; the jobs have been called in increasing index order, job \<open>i\<close> after exactly the
  outcomes of jobs \<open>0, \<dots>, i - 1\<close> had been stored; and the snapshot passed to job \<open>i\<close> has
  one slot per job, every slot below \<open>i\<close> filled and every slot from \<open>i\<close> on \<open>null\<close>.
\<close>

theorem C8_one_job_at_a_time:
  assumes "0 < threadsNumber" and "st = run pl threadsNumber a sched"
  shows "length (in_flight (lanes st)) \<le> 1 \<and>
         invocations [] (trace st) =
           map (\<lambda>i. (i, [0..<i])) [0..<length (invoked (trace st))] \<and>
         (\<forall>i snapshot. Invoke i snapshot \<in> set (trace st) \<longrightarrow>
            length snapshot = length pl \<and>
            (\<forall>j<i. snapshot ! j \<noteq> JNull) \<and>
            (\<forall>j. i \<le> j \<and> j < length pl \<longrightarrow> snapshot ! j = JNull))"
proof -
  have inv: "events_inv pl st" "order_inv st"
    unfolding assms(2) using run_inv_run [of pl a threadsNumber sched]
    by (simp_all add: run_inv_def)
  obtain l where "lanes st = [l]" unfolding assms(2) using one_lane by blast
  then have "length (in_flight (lanes st)) \<le> 1" by (simp add: in_flight_single)
  moreover from inv(2) have "invocations [] (trace st) =
      map (\<lambda>i. (i, [0..<i])) [0..<length (invoked (trace st))]"
    by (simp add: order_inv_def)
  moreover from inv(1) have "\<forall>i snapshot. Invoke i snapshot \<in> set (trace st) \<longrightarrow>
            length snapshot = length pl \<and>
            (\<forall>j<i. snapshot ! j \<noteq> JNull) \<and>
            (\<forall>j. i \<le> j \<and> j < length pl \<longrightarrow> snapshot ! j = JNull)"
    unfolding events_inv_def by blast
  ultimately show ?thesis by blast
qed

theorem C8_one_job_at_a_time_witness:
  "0 < (2::nat) \<and>
   in_flight (lanes (run [fulfilling (JNum 1), fulfilling (JNum 2), fulfilling (JNum 3)]
      2 True [0, 0])) = [2] \<and>
   invocations [] (trace (run [fulfilling (JNum 1), fulfilling (JNum 2), fulfilling (JNum 3)]
      2 True [0, 0])) = [(0, []), (1, [0]), (2, [0, 1])] \<and>
   Invoke 2 [success_slot 0 (JNum 1), success_slot 1 (JNum 2), JNull] \<in> set (trace
      (run [fulfilling (JNum 1), fulfilling (JNum 2), fulfilling (JNum 3)] 2 True [0, 0]))"
  using C8_one_job_at_a_time [OF _ refl,
      of 2 "[fulfilling (JNum 1), fulfilling (JNum 2), fulfilling (JNum 3)]" True "[0, 0]"]
  by (simp add: run_simps success_slot_def)

text \<open>
  C9, as stated: the run is deterministic for any \<open>threadsNumber\<close>. This fails for
  \<open>threadsNumber = 0\<close>, where the promise is fulfilled with the live array while the
  lane still runs: the same two jobs give a caller who reads before job 0's callback
  has run two \<open>null\<close> slots, and a caller who reads after it a filled first slot.
\<close>

theorem C9_counterexample:
  "returned (run [fulfilling (JNum 1), fulfilling (JNum 2)] 0 True []) =
     Some (Resolves [JNull, JNull]) \<and>
   returned (run [fulfilling (JNum 1), fulfilling (JNum 2)] 0 True [0]) =
     Some (Resolves [success_slot 0 (JNum 1), JNull]) \<and>
   returned (run [fulfilling (JNum 1), fulfilling (JNum 2)] 0 True []) \<noteq>
   returned (run [fulfilling (JNum 1), fulfilling (JNum 2)] 0 True [0])"
  by (simp add: run_simps success_slot_def)

text \<open>
  C9, amended. For every \<open>threadsNumber \<ge> 1\<close> the run is deterministic: if every
  job's promise settles, the returned promise settles (after as many turns of the lane
  as there are jobs), and every schedule under which it has settled gives the same
  outcome, the same list or the same rejection payload.
\<close>

theorem C9_deterministic_outcome:
  assumes "\<And>i snapshot. i < length pl \<Longrightarrow> (pl ! i) snapshot \<noteq> NeverSettles"
    and "0 < N"
  shows "\<exists>out. returned (run pl N a (replicate (length pl) 0)) = Some out \<and>
           (\<forall>sched out'. returned (run pl N a sched) = Some out' \<longrightarrow> out' = out)"
proof -
  from run_settles [OF assms] obtain out
    where out: "returned (run pl N a (replicate (length pl) 0)) = Some out" by blast
  have "out' = out" if "returned (run pl N a sched) = Some out'" for sched out'
    using assms(2) that out by (rule returned_unique)
  with out show ?thesis by blast
qed

theorem C9_deterministic_outcome_witness:
  "0 < (2::nat) \<and>
   returned (run [fulfilling (JNum 1), rejecting (JStr ''x'')] 2 True [0, 0]) =
     Some (Rejects (JObj [(''promiseIndex'', JNum 1), (''error'', JStr ''x''),
       (''resultList'', JArr [success_slot 0 (JNum 1), failure_slot 1 (JStr ''x'')])])) \<and>
   returned (run [fulfilling (JNum 1), rejecting (JStr ''x'')] 2 True [1, 0, 2, 0, 0]) =
   returned (run [fulfilling (JNum 1), rejecting (JStr ''x'')] 2 True [0, 0])"
proof -
  let ?pl = "[fulfilling (JNum 1), rejecting (JStr ''x'')]"
  have h: "\<And>i snapshot. i < length ?pl \<Longrightarrow> (?pl ! i) snapshot \<noteq> NeverSettles"
    by (auto simp: less_Suc_eq fulfilling_def rejecting_def)
  have n: "0 < (2::nat)" by simp
  from C9_deterministic_outcome [OF h n, of True] obtain out where
    u: "\<And>sched out'. returned (run ?pl 2 True sched) = Some out' \<Longrightarrow> out' = out"
    by blast
  have e1: "returned (run ?pl 2 True [0, 0]) =
     Some (Rejects (JObj [(''promiseIndex'', JNum 1), (''error'', JStr ''x''),
       (''resultList'', JArr [success_slot 0 (JNum 1), failure_slot 1 (JStr ''x'')])]))"
    by (simp add: run_simps success_slot_def failure_slot_def)
  have "returned (run ?pl 2 True [1, 0, 2, 0, 0]) \<noteq> None"
    by (simp add: run_simps)
  then obtain o2 where e2: "returned (run ?pl 2 True [1, 0, 2, 0, 0]) = Some o2" by blast
  from u [OF e1] u [OF e2] e1 e2 n show ?thesis by simp
qed

text \<open>
  C10. With \<open>threadsNumber = 0\<close> one lane is made all the same, and \<open>threads\<close> is
  empty. Under every schedule, the empty one included, the returned promise is
  fulfilled: it waits for no job, and what the caller reads is the array \<open>resultList\<close>
  as it is at the time of reading. As long as a job is in flight that list has a
  \<open>null\<close> slot. If there is a job, the call itself has claimed index 0 and called
  job 0 with the all-\<open>null\<close> snapshot, and job 0 is in flight when the call returns.
\<close>

theorem C10_no_thread_awaited:
  "length (lanes (runSequentialPromises pl 0 a)) = 1 \<and>
   threads (runSequentialPromises pl 0 a) = [] \<and>
   returned (run pl 0 a sched) = Some (Resolves (resultList (run pl 0 a sched))) \<and>
   (in_flight (lanes (run pl 0 a sched)) \<noteq> [] \<longrightarrow>
      JNull \<in> set (resultList (run pl 0 a sched))) \<and>
   (pl \<noteq> [] \<longrightarrow>
      trace (runSequentialPromises pl 0 a) =
        [Claim 0, Invoke 0 (replicate (length pl) JNull)] \<and>
      in_flight (lanes (runSequentialPromises pl 0 a)) = [0])"
proof -
  let ?st = "run pl 0 a sched"
  have null: "JNull \<in> set (resultList ?st)" if "in_flight (lanes ?st) \<noteq> []"
  proof -
    obtain l where l: "lanes ?st = [l]" "lane_ok pl a ?st l"
      and len: "length (resultList ?st) = length pl"
      by (rule lane_trace_run [of pl 0 a sched])
    from that l(1) obtain i s where "l = Awaiting i s" by (cases l) simp_all
    with l(2) len have "i < length (resultList ?st)" "resultList ?st ! i = JNull" by simp_all
    then show ?thesis by (metis nth_mem)
  qed
  have "length (lanes (runSequentialPromises pl 0 a)) = 1"
    "threads (runSequentialPromises pl 0 a) = []"
    by (simp_all add: runSequentialPromises_def getPromiseThread_def runNextPromise_def Let_def)
  moreover have "pl \<noteq> [] \<longrightarrow>
      trace (runSequentialPromises pl 0 a) =
        [Claim 0, Invoke 0 (replicate (length pl) JNull)] \<and>
      in_flight (lanes (runSequentialPromises pl 0 a)) = [0]"
    by (simp add: runSequentialPromises_def getPromiseThread_def runNextPromise_def Let_def)
  ultimately show ?thesis using null returned_run_zero [of pl a sched] by blast
qed

theorem C10_no_thread_awaited_witness:
  "[fulfilling (JNum 1), fulfilling (JNum 2)] \<noteq> [] \<and>
   trace (runSequentialPromises [fulfilling (JNum 1), fulfilling (JNum 2)] 0 True) =
     [Claim 0, Invoke 0 [JNull, JNull]] \<and>
   in_flight (lanes (run [fulfilling (JNum 1), fulfilling (JNum 2)] 0 True [0])) \<noteq> [] \<and>
   returned (run [fulfilling (JNum 1), fulfilling (JNum 2)] 0 True [0]) =
     Some (Resolves [success_slot 0 (JNum 1), JNull]) \<and>
   returned (run [fulfilling (JNum 1), fulfilling (JNum 2)] 0 True [0, 0]) =
     Some (Resolves [success_slot 0 (JNum 1), success_slot 1 (JNum 2)])"
  using C10_no_thread_awaited [of "[fulfilling (JNum 1), fulfilling (JNum 2)]" True "[0]"]
  by (simp add: run_simps success_slot_def)

end
